theory Spec2Isabelle
  imports Main "HOL-Library.Word" "HOL-Library.Sublist"
begin

section \<open>Strings, bytes and UTF-8\<close>

text \<open>
  A JavaScript string is a sequence of UTF-16 code units; \<open>length\<close>, \<open>indexOf\<close> and
  \<open>slice\<close> count code units. A Node \<open>Buffer\<close> is a sequence of bytes.
\<close>

type_synonym code_unit = "16 word"
type_synonym jsstring = "code_unit list"
type_synonym byte = "8 word"

text \<open>An ASCII literal of the source, as code units.\<close>

definition ascii :: "string \<Rightarrow> jsstring" where
  "ascii cs = map (\<lambda>c. of_nat (of_char c)) cs"

definition is_high_surrogate :: "code_unit \<Rightarrow> bool" where
  "is_high_surrogate u = (0xD800 \<le> unat u \<and> unat u \<le> 0xDBFF)"

definition is_low_surrogate :: "code_unit \<Rightarrow> bool" where
  "is_low_surrogate u = (0xDC00 \<le> unat u \<and> unat u \<le> 0xDFFF)"

text \<open>
  The code points of a string: a high surrogate followed by a low one is one supplementary
  code point; a surrogate on its own is replaced by U+FFFD, as Node does when it encodes.
\<close>

fun code_points :: "jsstring \<Rightarrow> nat list" where
  "code_points [] = []"
| "code_points [u] =
     [if is_high_surrogate u \<or> is_low_surrogate u then 0xFFFD else unat u]"
| "code_points (u # v # us) =
     (if is_high_surrogate u \<and> is_low_surrogate v
      then (0x10000 + (unat u - 0xD800) * 0x400 + (unat v - 0xDC00)) # code_points us
      else (if is_high_surrogate u \<or> is_low_surrogate u then 0xFFFD else unat u)
             # code_points (v # us))"

text \<open>The UTF-8 bytes of one code point, as numbers below 256.\<close>

definition utf8_of_cp :: "nat \<Rightarrow> nat list" where
  "utf8_of_cp c =
     (if c < 0x80 then [c]
      else if c < 0x800 then [0xC0 + c div 64, 0x80 + c mod 64]
      else if c < 0x10000 then
        [0xE0 + c div 4096, 0x80 + (c div 64) mod 64, 0x80 + c mod 64]
      else
        [0xF0 + c div 262144, 0x80 + (c div 4096) mod 64,
         0x80 + (c div 64) mod 64, 0x80 + c mod 64])"

text \<open>\<open>Buffer.from(str, 'utf8')\<close>.\<close>

definition Buffer_from :: "jsstring \<Rightarrow> byte list" where
  "Buffer_from s = map of_nat (concat (map utf8_of_cp (code_points s)))"

text \<open>\<open>Buffer.byteLength(str, 'utf8')\<close>: the number of bytes of the encoding.\<close>

definition byteLength :: "jsstring \<Rightarrow> nat" where
  "byteLength s = length (Buffer_from s)"

text \<open>
  \<open>buf.toString('utf8')\<close>. Each well-formed sequence gives its code point; each maximal
  ill-formed part (a stray continuation byte, an overlong or out-of-range lead, a sequence
  cut short by another byte or by the end of the buffer) gives one U+FFFD, and decoding
  resumes at the byte that broke the sequence.
\<close>

definition cont :: "nat \<Rightarrow> bool" where
  "cont b = (0x80 \<le> b \<and> b \<le> 0xBF)"

definition second_ok :: "nat \<Rightarrow> nat \<Rightarrow> bool" where
  "second_ok b c =
     ((if b = 0xE0 then 0xA0 else if b = 0xF0 then 0x90 else 0x80) \<le> c \<and>
      c \<le> (if b = 0xED then 0x9F else if b = 0xF4 then 0x8F else 0xBF))"

fun utf8_scan :: "nat list \<Rightarrow> nat list" where
  "utf8_scan [] = []"
| "utf8_scan (b # bs) =
     (if b < 0x80 then b # utf8_scan bs
      else if 0xC2 \<le> b \<and> b \<le> 0xDF then
        (case bs of
           [] \<Rightarrow> [0xFFFD]
         | c # cs \<Rightarrow>
             if cont c then ((b - 0xC0) * 64 + (c - 0x80)) # utf8_scan cs
             else 0xFFFD # utf8_scan bs)
      else if 0xE0 \<le> b \<and> b \<le> 0xEF then
        (case bs of
           [] \<Rightarrow> [0xFFFD]
         | c # cs \<Rightarrow>
             if second_ok b c then
               (case cs of
                  [] \<Rightarrow> [0xFFFD]
                | d # ds \<Rightarrow>
                    if cont d
                    then ((b - 0xE0) * 4096 + (c - 0x80) * 64 + (d - 0x80)) # utf8_scan ds
                    else 0xFFFD # utf8_scan cs)
             else 0xFFFD # utf8_scan bs)
      else if 0xF0 \<le> b \<and> b \<le> 0xF4 then
        (case bs of
           [] \<Rightarrow> [0xFFFD]
         | c # cs \<Rightarrow>
             if second_ok b c then
               (case cs of
                  [] \<Rightarrow> [0xFFFD]
                | d # ds \<Rightarrow>
                    if cont d then
                      (case ds of
                         [] \<Rightarrow> [0xFFFD]
                       | e # es \<Rightarrow>
                           if cont e
                           then ((b - 0xF0) * 262144 + (c - 0x80) * 4096
                                   + (d - 0x80) * 64 + (e - 0x80)) # utf8_scan es
                           else 0xFFFD # utf8_scan ds)
                    else 0xFFFD # utf8_scan cs)
             else 0xFFFD # utf8_scan bs)
      else 0xFFFD # utf8_scan bs)"

text \<open>The code units of one code point: itself, or a surrogate pair.\<close>

definition units_of_cp :: "nat \<Rightarrow> jsstring" where
  "units_of_cp c =
     (if c < 0x10000 then [of_nat c]
      else [of_nat (0xD800 + (c - 0x10000) div 0x400),
            of_nat (0xDC00 + (c - 0x10000) mod 0x400)])"

definition toString_utf8 :: "byte list \<Rightarrow> jsstring" where
  "toString_utf8 data = concat (map units_of_cp (utf8_scan (map unat data)))"

section \<open>The frame decoder of the socket data handler\<close>

text \<open>
  \<open>str.indexOf(pat)\<close>: the index of the first occurrence of \<open>pat\<close>, \<open>None\<close> for the
  source's \<open>-1\<close>.
\<close>

fun indexOf :: "jsstring \<Rightarrow> jsstring \<Rightarrow> nat option" where
  "indexOf [] pat = (if pat = [] then Some 0 else None)"
| "indexOf (x # xs) pat =
     (if prefix pat (x # xs) then Some 0 else map_option Suc (indexOf xs pat))"

definition CRLFCRLF :: jsstring where
  "CRLFCRLF = [0x0D, 0x0A, 0x0D, 0x0A]"

definition LFLF :: jsstring where
  "LFLF = [0x0A, 0x0A]"

text \<open>
  Lines 85 to 94 of src/index.js: \<open>headerEnd\<close> and \<open>delimiterLength\<close>, the four-unit
  delimiter searched first in the whole buffer, then the two-unit one; \<open>None\<close> when the
  handler returns for want of a delimiter.
\<close>

definition find_delimiter :: "jsstring \<Rightarrow> (nat \<times> nat) option" where
  "find_delimiter buffer =
     (case indexOf buffer CRLFCRLF of
        Some headerEnd \<Rightarrow> Some (headerEnd, 4)
      | None \<Rightarrow>
          (case indexOf buffer LFLF of
             Some headerEnd \<Rightarrow> Some (headerEnd, 2)
           | None \<Rightarrow> None))"

text \<open>
  \<open>header.match(/Content-Length: (\d+)/i)\<close>: the leftmost place where the key, compared
  without regard to the case of ASCII letters, is followed by at least one decimal digit;
  the group is the longest run of digits there. The result is the group.
\<close>

definition is_digit :: "code_unit \<Rightarrow> bool" where
  "is_digit u = (0x30 \<le> unat u \<and> unat u \<le> 0x39)"

definition lower :: "code_unit \<Rightarrow> code_unit" where
  "lower u = (if 0x41 \<le> unat u \<and> unat u \<le> 0x5A then u + 0x20 else u)"

definition match_here :: "jsstring \<Rightarrow> jsstring option" where
  "match_here s =
     (if map lower (take 16 s) = ascii ''content-length: ''
         \<and> takeWhile is_digit (drop 16 s) \<noteq> []
      then Some (takeWhile is_digit (drop 16 s)) else None)"

fun match_Content_Length :: "jsstring \<Rightarrow> jsstring option" where
  "match_Content_Length [] = None"
| "match_Content_Length (c # cs) =
     (case match_here (c # cs) of
        Some digits \<Rightarrow> Some digits
      | None \<Rightarrow> match_Content_Length cs)"

text \<open>
  \<open>parseInt\<close> on a run of decimal digits. JavaScript rounds the value to a double; every
  value below \<open>2 ^ 53\<close> is exact, and a larger one exceeds the byte length of any string
  the engine can hold, so the comparison of line 111 comes out the same.
\<close>

definition parseInt :: "jsstring \<Rightarrow> nat" where
  "parseInt digits = foldl (\<lambda>a d. 10 * a + (unat d - 0x30)) 0 digits"

text \<open>
  One pass through the body of the \<open>while\<close> loop (lines 84 to 127 of src/index.js, and the
  same lines in the client's handler and in both handlers of src/unnamed/part_000):
  \<open>Incomplete\<close> for the two plain \<open>return\<close>s, \<open>Malformed\<close> for the \<open>return\<close> after
  \<open>buffer = ''\<close>, and \<open>Message body rest\<close> when a body is handed to the clipboard and
  \<open>buffer\<close> becomes \<open>rest\<close>.
\<close>

datatype extraction = Incomplete | Malformed | Message jsstring jsstring

definition tryExtractOne :: "jsstring \<Rightarrow> extraction" where
  "tryExtractOne buffer =
     (case find_delimiter buffer of
        None \<Rightarrow> Incomplete
      | Some (headerEnd, delimiterLength) \<Rightarrow>
          (let header = take headerEnd buffer;
               content = drop (headerEnd + delimiterLength) buffer
           in case match_Content_Length header of
                None \<Rightarrow> Malformed
              | Some digits \<Rightarrow>
                  (let contentLength = parseInt digits
                   in if byteLength content < contentLength then Incomplete
                      else Message (take contentLength content)
                                   (drop contentLength content))))"

text \<open>
  Two ways in which a clipboard command fails. \<open>child_process.exec\<close> refuses a command
  line that holds U+0000 and throws at once, in the caller, before anything is started;
  a command that was started and exits with an error rejects its promise later.
\<close>

datatype error = InvalidArgValue | ExecError

text \<open>
  The command line of line 119 holds the body, with quotes and line feeds escaped and
  nothing removed, so the call throws exactly when the body holds U+0000.
\<close>

definition exec_throws :: "jsstring \<Rightarrow> bool" where
  "exec_throws body = (0 \<in> set body)"

text \<open>
  The \<open>while (buffer.length > 0)\<close> loop of the handler: the bodies handed to the clipboard,
  in order, and the buffer the handler leaves behind. When the call of line 119 throws,
  line 127 is not reached and the exception leaves the handler, which has no
  \<open>try\<close>: the result is then the error.
\<close>

function process_buffer :: "jsstring \<Rightarrow> error + jsstring list \<times> jsstring" where
  "process_buffer buffer =
     (if buffer = [] then Inr ([], buffer)
      else case tryExtractOne buffer of
             Incomplete \<Rightarrow> Inr ([], buffer)
           | Malformed \<Rightarrow> Inr ([], [])
           | Message body rest \<Rightarrow>
               if exec_throws body then Inl InvalidArgValue
               else (case process_buffer rest of
                       Inl err \<Rightarrow> Inl err
                     | Inr (bodies, buffer') \<Rightarrow> Inr (body # bodies, buffer')))"
  by pat_completeness auto
termination
proof (relation "measure length")
  show "wf (measure length)" by simp
next
  fix buffer :: jsstring and body rest
  assume nonempty: "buffer \<noteq> []" and step: "tryExtractOne buffer = Message body rest"
  from step obtain headerEnd delimiterLength contentLength
    where rest: "rest = drop contentLength (drop (headerEnd + delimiterLength) buffer)"
      and found: "find_delimiter buffer = Some (headerEnd, delimiterLength)"
    by (auto simp: tryExtractOne_def Let_def split: option.splits if_splits)
  from found have "0 < delimiterLength"
    by (auto simp: find_delimiter_def split: option.splits)
  with nonempty rest have "length rest < length buffer"
    by (cases buffer) auto
  then show "(rest, buffer) \<in> measure length" by simp
qed

text \<open>
  The loop again, with a bound on the number of passes: \<open>None\<close> when the bound is used up
  before the loop has left.
\<close>

fun process_fuel ::
    "nat \<Rightarrow> jsstring \<Rightarrow> (error + jsstring list \<times> jsstring) option" where
  "process_fuel 0 buffer = None"
| "process_fuel (Suc k) buffer =
     (if buffer = [] then Some (Inr ([], buffer))
      else case tryExtractOne buffer of
             Incomplete \<Rightarrow> Some (Inr ([], buffer))
           | Malformed \<Rightarrow> Some (Inr ([], []))
           | Message body rest \<Rightarrow>
               if exec_throws body then Some (Inl InvalidArgValue)
               else (case process_fuel k rest of
                       None \<Rightarrow> None
                     | Some (Inl err) \<Rightarrow> Some (Inl err)
                     | Some (Inr (bodies, buffer')) \<Rightarrow> Some (Inr (body # bodies, buffer'))))"

section \<open>The connection and its three callbacks\<close>

text \<open>The variables that \<open>handleConnection\<close> closes over (lines 74 to 78 of src/index.js).\<close>

record connection =
  buffer :: jsstring
  lastClientContent :: jsstring
  lastClipboardContent :: jsstring
  skipNextCheck :: bool

text \<open>
  \<open>socket.on('data', ...)\<close>: the chunk is decoded on its own and appended, then the loop
  runs. The result carries the bodies for which a clipboard write was started. An
  exception of line 119 leaves the handler uncaught; the source installs no listener for
  that, so the process ends there and the result is the error.
\<close>

definition on_data ::
    "connection \<Rightarrow> byte list \<Rightarrow> error + connection \<times> jsstring list" where
  "on_data st data =
     (case process_buffer (buffer st @ toString_utf8 data) of
        Inl err \<Rightarrow> Inl err
      | Inr (bodies, buffer') \<Rightarrow> Inr (st\<lparr>buffer := buffer'\<rparr>, bodies))"

text \<open>Feeding a sequence of chunks, one \<open>data\<close> event each.\<close>

fun feed :: "connection \<Rightarrow> byte list list \<Rightarrow> error + connection \<times> jsstring list" where
  "feed st [] = Inr (st, [])"
| "feed st (chunk # chunks) =
     (case on_data st chunk of
        Inl err \<Rightarrow> Inl err
      | Inr (st', bodies) \<Rightarrow>
          (case feed st' chunks of
             Inl err \<Rightarrow> Inl err
           | Inr (st'', later) \<Rightarrow> Inr (st'', bodies @ later)))"

text \<open>
  The \<open>.then\<close> and \<open>.catch\<close> callbacks of the clipboard write started for \<open>body\<close>
  (lines 119 to 125): they run when the write has settled.
\<close>

definition write_settled :: "connection \<Rightarrow> jsstring \<Rightarrow> error + unit \<Rightarrow> connection" where
  "write_settled st body outcome =
     (case outcome of
        Inr done \<Rightarrow> st\<lparr>lastClientContent := body, skipNextCheck := True\<rparr>
      | Inl err \<Rightarrow> st)"

text \<open>\<open>String.prototype.trim\<close>: white space and line terminators go from both ends.\<close>

definition is_space :: "code_unit \<Rightarrow> bool" where
  "is_space u =
     (unat u \<in> {0x09, 0x0A, 0x0B, 0x0C, 0x0D, 0x20, 0xA0, 0x1680, 0x2028, 0x2029,
                0x202F, 0x205F, 0x3000, 0xFEFF}
      \<or> (0x2000 \<le> unat u \<and> unat u \<le> 0x200A))"

definition trim :: "jsstring \<Rightarrow> jsstring" where
  "trim s = rev (dropWhile is_space (rev (dropWhile is_space s)))"

text \<open>The decimal digits of a number, as the template literal of line 143 prints it.\<close>

definition digit :: "nat \<Rightarrow> code_unit" where
  "digit d = of_nat (0x30 + d)"

function decimal :: "nat \<Rightarrow> jsstring" where
  "decimal n =
     (if n < 10 then [digit n]
      else decimal (n div 10) @ [digit (n mod 10)])"
  by pat_completeness auto
termination
  by (relation "measure id") auto

text \<open>The message of line 143, and the same frame with the two-unit delimiter.\<close>

definition message :: "jsstring \<Rightarrow> jsstring" where
  "message data =
     ascii ''Content-Length: '' @ decimal (byteLength data) @ CRLFCRLF @ data"

definition message_lf :: "jsstring \<Rightarrow> jsstring" where
  "message_lf data =
     ascii ''Content-Length: '' @ decimal (byteLength data) @ LFLF @ data"

text \<open>
  \<open>checkAndSendClipboardData\<close> runs in two steps, with the \<open>await\<close> of line 138
  between them; other callbacks of the connection can run while the read is under way.

  The first step (lines 133 to 136) tests the flag: the result says whether the read is
  started.
\<close>

definition tick_start :: "connection \<Rightarrow> connection \<times> bool" where
  "tick_start st =
     (if skipNextCheck st then (st\<lparr>skipNextCheck := False\<rparr>, False) else (st, True))"

text \<open>
  The second step (lines 138 to 150) runs when the read has settled, on the variables as
  they are then: the second argument is what the read gave, and the result carries the
  bytes written to the socket, if any.
\<close>

definition tick_finish ::
    "connection \<Rightarrow> error + jsstring \<Rightarrow> connection \<times> byte list option" where
  "tick_finish st read =
     (case read of
        Inl err \<Rightarrow> (st, None)
      | Inr stdout \<Rightarrow>
          (let data = trim stdout
           in if data \<noteq> [] \<and> data \<noteq> lastClipboardContent st
                 \<and> data \<noteq> lastClientContent st
              then (st\<lparr>lastClipboardContent := data\<rparr>,
                    Some (Buffer_from (message data)))
              else (st, None)))"

text \<open>
  A whole tick during whose read no other callback of the connection runs: the second
  step works on the state that the first one left.
\<close>

definition checkAndSendClipboardData ::
    "connection \<Rightarrow> error + jsstring \<Rightarrow> connection \<times> byte list option" where
  "checkAndSendClipboardData st read =
     (case tick_start st of
        (st', False) \<Rightarrow> (st', None)
      | (st', True) \<Rightarrow> tick_finish st' read)"

text \<open>A string without a surrogate on its own: what decoding UTF-8 always gives.\<close>

fun well_formed :: "jsstring \<Rightarrow> bool" where
  "well_formed [] = True"
| "well_formed [u] = (\<not> is_high_surrogate u \<and> \<not> is_low_surrogate u)"
| "well_formed (u # v # us) =
     (if is_high_surrogate u then is_low_surrogate v \<and> well_formed us
      else \<not> is_low_surrogate u \<and> well_formed (v # us))"

text \<open>A Unicode scalar value: a code point that is not a surrogate.\<close>

definition scalar :: "nat \<Rightarrow> bool" where
  "scalar c = (c < 0xD800 \<or> (0xE000 \<le> c \<and> c < 0x110000))"

text \<open>The variables as \<open>handleConnection\<close> initialises them.\<close>

definition fresh_connection :: connection where
  "fresh_connection =
     \<lparr>buffer = [], lastClientContent = [], lastClipboardContent = [],
      skipNextCheck = False\<rparr>"

section \<open>UTF-8 there and back\<close>

lemma scan_one:
  assumes "c < 0x80"
  shows "utf8_scan (utf8_of_cp c @ rest) = c # utf8_scan rest"
proof -
  from assms have "utf8_of_cp c = [c]"
    by (simp add: utf8_of_cp_def)
  with assms show ?thesis
    by simp
qed

lemma scan_two:
  assumes "0x80 \<le> c" and "c < 0x800"
  shows "utf8_scan (utf8_of_cp c @ rest) = c # utf8_scan rest"
proof -
  define h where "h = c div 64"
  define l where "l = c mod 64"
  have whole: "h * 64 + l = c"
    by (simp add: h_def l_def)
  have low: "l < 64"
    by (simp add: l_def)
  from whole low assms have range: "2 \<le> h" "h \<le> 31"
    by linarith+
  from assms have "\<not> c < 0x80"
    by simp
  with assms have enc: "utf8_of_cp c = [0xC0 + h, 0x80 + l]"
    unfolding utf8_of_cp_def h_def l_def by (simp only: if_True if_False)
  have "utf8_scan ((0xC0 + h) # (0x80 + l) # rest) = (h * 64 + l) # utf8_scan rest"
    using range low by (simp add: cont_def)
  then show ?thesis
    by (simp only: enc whole append_Cons append_Nil)
qed

lemma shift_digit:
  fixes q d r :: nat
  assumes "q = d * 64 + r"
  shows "d * (64 * n) + r * n = q * n"
  using assms by (simp add: algebra_simps)

lemma three_digits:
  fixes c :: nat
  shows "c div 4096 * 4096 + (c div 64) mod 64 * 64 + c mod 64 = c"
proof -
  have "c div 4096 = c div 64 div 64"
    by (simp add: div_mult2_eq)
  moreover have "c div 64 div 64 * (64 * 64) + (c div 64) mod 64 * 64 = c div 64 * 64"
    by (rule shift_digit) simp
  ultimately have "c div 4096 * 4096 + (c div 64) mod 64 * 64 = c div 64 * 64"
    by simp
  then show ?thesis
    by simp
qed

lemma four_digits:
  fixes c :: nat
  shows "c div 262144 * 262144 + (c div 4096) mod 64 * 4096 + (c div 64) mod 64 * 64
           + c mod 64 = c"
proof -
  have "c div 262144 = c div 4096 div 64"
    by (simp add: div_mult2_eq)
  moreover have "c div 4096 div 64 * (64 * 4096) + (c div 4096) mod 64 * 4096
      = c div 4096 * 4096"
    by (rule shift_digit) simp
  ultimately have "c div 262144 * 262144 + (c div 4096) mod 64 * 4096 = c div 4096 * 4096"
    by simp
  then show ?thesis
    using three_digits [of c] by simp
qed

lemma scan_three:
  assumes "0x800 \<le> c" and "c < 0x10000" and "c < 0xD800 \<or> 0xE000 \<le> c"
  shows "utf8_scan (utf8_of_cp c @ rest) = c # utf8_scan rest"
proof -
  define h where "h = c div 4096"
  define m where "m = (c div 64) mod 64"
  define l where "l = c mod 64"
  have whole: "h * 4096 + m * 64 + l = c"
    unfolding h_def m_def l_def by (rule three_digits)
  have low: "m < 64" "l < 64"
    by (simp_all add: m_def l_def)
  from whole low assms have lead: "h \<le> 15"
    by linarith
  from whole low assms have first: "h = 0 \<Longrightarrow> 32 \<le> m"
    by linarith
  from whole low assms have surrogate: "h = 13 \<Longrightarrow> m < 32"
    by linarith
  from assms have "\<not> c < 0x80" "\<not> c < 0x800"
    by simp_all
  with assms have enc: "utf8_of_cp c = [0xE0 + h, 0x80 + m, 0x80 + l]"
    unfolding utf8_of_cp_def h_def m_def l_def by (simp only: if_True if_False)
  have ok: "second_ok (0xE0 + h) (0x80 + m)"
    using lead low first surrogate by (auto simp: second_ok_def)
  have "utf8_scan ((0xE0 + h) # (0x80 + m) # (0x80 + l) # rest)
      = (h * 4096 + m * 64 + l) # utf8_scan rest"
    using lead low ok by (simp add: cont_def)
  then show ?thesis
    by (simp only: enc whole append_Cons append_Nil)
qed

lemma scan_four:
  assumes "0x10000 \<le> c" and "c < 0x110000"
  shows "utf8_scan (utf8_of_cp c @ rest) = c # utf8_scan rest"
proof -
  define h where "h = c div 262144"
  define k where "k = (c div 4096) mod 64"
  define m where "m = (c div 64) mod 64"
  define l where "l = c mod 64"
  have whole: "h * 262144 + k * 4096 + m * 64 + l = c"
    unfolding h_def k_def m_def l_def by (rule four_digits)
  have low: "k < 64" "m < 64" "l < 64"
    by (simp_all add: k_def m_def l_def)
  from whole low assms have lead: "h \<le> 4"
    by linarith
  from whole low assms have first: "h = 0 \<Longrightarrow> 16 \<le> k"
    by linarith
  from whole low assms have last: "h = 4 \<Longrightarrow> k < 16"
    by linarith
  from assms have "\<not> c < 0x80" "\<not> c < 0x800" "\<not> c < 0x10000"
    by simp_all
  then have enc: "utf8_of_cp c = [0xF0 + h, 0x80 + k, 0x80 + m, 0x80 + l]"
    unfolding utf8_of_cp_def h_def k_def m_def l_def by (simp only: if_True if_False)
  have ok: "second_ok (0xF0 + h) (0x80 + k)"
    using lead low first last by (auto simp: second_ok_def)
  have "utf8_scan ((0xF0 + h) # (0x80 + k) # (0x80 + m) # (0x80 + l) # rest)
      = (h * 262144 + k * 4096 + m * 64 + l) # utf8_scan rest"
    using lead low ok by (simp add: cont_def)
  then show ?thesis
    by (simp only: enc whole append_Cons append_Nil)
qed

lemma scan_encoded:
  assumes "scalar c"
  shows "utf8_scan (utf8_of_cp c @ rest) = c # utf8_scan rest"
proof -
  consider "c < 0x80" | "0x80 \<le> c" "c < 0x800"
    | "0x800 \<le> c" "c < 0x10000" "c < 0xD800 \<or> 0xE000 \<le> c"
    | "0x10000 \<le> c" "c < 0x110000"
    using assms unfolding scalar_def by linarith
  then show ?thesis
    by cases (simp_all only: scan_one scan_two scan_three scan_four)
qed

lemma unat_code_unit: "unat (u :: code_unit) < 65536"
  using unsigned_less [of u, where 'a = nat] by simp

lemma of_nat_unat_unit: "of_nat (unat (u :: code_unit)) = u"
  by simp

lemma unat_of_nat_byte: "b < 256 \<Longrightarrow> unat (of_nat b :: byte) = b"
  by (simp add: unat_of_nat)

lemma unat_of_nat_unit: "c < 65536 \<Longrightarrow> unat (of_nat c :: code_unit) = c"
  by (simp add: unat_of_nat)

lemma pair_range:
  assumes "is_high_surrogate u" and "is_low_surrogate v"
  shows "0x10000 \<le> 0x10000 + (unat u - 0xD800) * 0x400 + (unat v - 0xDC00)"
    and "0x10000 + (unat u - 0xD800) * 0x400 + (unat v - 0xDC00) < 0x110000"
  using assms unfolding is_high_surrogate_def is_low_surrogate_def by linarith+

lemma code_points_scalar: "list_all scalar (code_points s)"
proof (induction s rule: code_points.induct)
  case 1
  show ?case by simp
next
  case (2 u)
  show ?case
    using unat_code_unit [of u]
    by (auto simp: scalar_def is_high_surrogate_def is_low_surrogate_def)
next
  case (3 u v us)
  show ?case
  proof (cases "is_high_surrogate u \<and> is_low_surrogate v")
    case True
    with pair_range [of u v]
    have "scalar (0x10000 + (unat u - 0xD800) * 0x400 + (unat v - 0xDC00))"
      by (simp add: scalar_def)
    with 3 show ?thesis
      by (simp add: True)
  next
    case False
    have "scalar (if is_high_surrogate u \<or> is_low_surrogate u then 0xFFFD else unat u)"
      using unat_code_unit [of u]
      by (auto simp: scalar_def is_high_surrogate_def is_low_surrogate_def)
    with 3 show ?thesis
      by (simp add: False)
  qed
qed

lemma scan_concat:
  "list_all scalar cs \<Longrightarrow> utf8_scan (concat (map utf8_of_cp cs)) = cs"
  by (induction cs) (simp_all add: scan_encoded)

lemma utf8_of_cp_bytes:
  assumes "c < 0x110000"
  shows "list_all (\<lambda>b. b < 256) (utf8_of_cp c)"
proof -
  define l where "l = c mod 64"
  define m where "m = (c div 64) mod 64"
  define k where "k = (c div 4096) mod 64"
  define h2 where "h2 = c div 64"
  define h3 where "h3 = c div 4096"
  define h4 where "h4 = c div 262144"
  have enc: "utf8_of_cp c =
      (if c < 0x80 then [c]
       else if c < 0x800 then [0xC0 + h2, 0x80 + l]
       else if c < 0x10000 then [0xE0 + h3, 0x80 + m, 0x80 + l]
       else [0xF0 + h4, 0x80 + k, 0x80 + m, 0x80 + l])"
    unfolding utf8_of_cp_def l_def m_def k_def h2_def h3_def h4_def by (rule refl)
  have two: "h2 * 64 + l = c"
    by (simp add: h2_def l_def)
  have three: "h3 * 4096 + m * 64 + l = c"
    unfolding h3_def m_def l_def by (rule three_digits)
  have four: "h4 * 262144 + k * 4096 + m * 64 + l = c"
    unfolding h4_def k_def m_def l_def by (rule four_digits)
  have low: "l < 64" "m < 64" "k < 64"
    by (simp_all add: l_def m_def k_def)
  have "c < 0x800 \<Longrightarrow> h2 < 32"
    using two low by linarith
  moreover have "c < 0x10000 \<Longrightarrow> h3 < 16"
    using three low by linarith
  moreover have "h4 < 5"
    using four low assms by linarith
  ultimately show ?thesis
    using low unfolding enc by auto
qed

lemma scalar_bytes: "scalar c \<Longrightarrow> list_all (\<lambda>b. b < 256) (utf8_of_cp c)"
  by (rule utf8_of_cp_bytes) (auto simp: scalar_def)

lemma unat_of_nat_bytes:
  "list_all (\<lambda>b. b < 256) bs \<Longrightarrow> map unat (map of_nat bs :: byte list) = bs"
  by (induction bs) (simp_all add: unat_of_nat_byte)

lemma concat_bytes:
  "list_all scalar cs \<Longrightarrow> list_all (\<lambda>b. b < 256) (concat (map utf8_of_cp cs))"
  by (induction cs) (simp_all add: scalar_bytes)

lemma scan_Buffer_from: "utf8_scan (map unat (Buffer_from s)) = code_points s"
  unfolding Buffer_from_def
  by (simp only: unat_of_nat_bytes [OF concat_bytes [OF code_points_scalar]]
      scan_concat [OF code_points_scalar])

lemma units_single:
  "units_of_cp (unat (u :: code_unit)) = [u]"
  using unat_code_unit [of u] by (simp add: units_of_cp_def)

lemma units_pair:
  assumes "is_high_surrogate u" and "is_low_surrogate v"
  shows "units_of_cp (0x10000 + (unat u - 0xD800) * 0x400 + (unat v - 0xDC00)) = [u, v]"
proof -
  define a where "a = unat u - 0xD800"
  define b where "b = unat v - 0xDC00"
  from assms have u: "unat u = 0xD800 + a" and v: "unat v = 0xDC00 + b" and b: "b < 0x400"
    by (auto simp: a_def b_def is_high_surrogate_def is_low_surrogate_def)
  have "(a * 0x400 + b) div 0x400 = a" "(a * 0x400 + b) mod 0x400 = b"
    using b by simp_all
  then have "units_of_cp (0x10000 + a * 0x400 + b)
      = [of_nat (0xD800 + a), of_nat (0xDC00 + b)]"
    by (simp add: units_of_cp_def add.assoc)
  also have "\<dots> = [of_nat (unat u), of_nat (unat v)]"
    by (simp only: u v)
  finally show ?thesis
    by (simp add: a_def b_def)
qed

lemma units_code_points:
  "well_formed s \<Longrightarrow> concat (map units_of_cp (code_points s)) = s"
proof (induction s rule: code_points.induct)
  case 1
  show ?case by simp
next
  case (2 u)
  then show ?case
    by (simp add: units_single)
next
  case (3 u v us)
  show ?case
  proof (cases "is_high_surrogate u")
    case True
    with "3.prems" have low: "is_low_surrogate v" and rest: "well_formed us"
      by simp_all
    with True "3.IH"(1) have "concat (map units_of_cp (code_points us)) = us"
      by simp
    with True low show ?thesis
      by (simp add: units_pair)
  next
    case False
    with "3.prems" have plain: "\<not> is_low_surrogate u" and rest: "well_formed (v # us)"
      by simp_all
    with False "3.IH"(2) have "concat (map units_of_cp (code_points (v # us))) = v # us"
      by simp
    with False plain show ?thesis
      by (simp add: units_single)
  qed
qed

lemma toString_Buffer_from:
  "well_formed s \<Longrightarrow> toString_utf8 (Buffer_from s) = s"
  by (simp add: toString_utf8_def scan_Buffer_from units_code_points)

lemma utf8_of_cp_length: "1 \<le> length (utf8_of_cp c)"
  by (simp add: utf8_of_cp_def)

lemma utf8_of_cp_length_pair: "0x10000 \<le> c \<Longrightarrow> length (utf8_of_cp c) = 4"
  by (simp add: utf8_of_cp_def)

lemma length_le_bytes: "length s \<le> length (concat (map utf8_of_cp (code_points s)))"
proof (induction s rule: code_points.induct)
  case 1
  show ?case by simp
next
  case (2 u)
  show ?case
    using utf8_of_cp_length [of "if is_high_surrogate u \<or> is_low_surrogate u then 0xFFFD else unat u"]
    by simp
next
  case (3 u v us)
  show ?case
  proof (cases "is_high_surrogate u \<and> is_low_surrogate v")
    case True
    then have "length (utf8_of_cp (0x10000 + (unat u - 0xD800) * 0x400 + (unat v - 0xDC00))) = 4"
      by (intro utf8_of_cp_length_pair) simp
    with 3 show ?thesis
      by (simp add: True)
  next
    case False
    from 3 utf8_of_cp_length [of "if is_high_surrogate u \<or> is_low_surrogate u then 0xFFFD else unat u"]
    show ?thesis
      by (simp add: False)
  qed
qed

lemma length_le_byteLength: "length s \<le> byteLength s"
  using length_le_bytes [of s] by (simp add: byteLength_def Buffer_from_def)

section \<open>The change guard\<close>

lemmas tick_defs = tick_start_def tick_finish_def checkAndSendClipboardData_def Let_def

lemma trim_ascii_c: "trim (ascii '' c '') = ascii ''c''"
  by (simp add: trim_def ascii_def is_space_def)

lemma trim_ascii_b: "trim (ascii ''b'') = ascii ''b''"
  by (simp add: trim_def ascii_def is_space_def)

text \<open>
  C5, as the code has it. The flag is tested once, when the tick starts and before the
  clipboard is read: a tick that finds it set clears it, reads nothing and sends nothing.
  Any other tick starts the read and changes nothing yet. When the read has returned,
  the tick writes nothing to the socket exactly when the trimmed text is empty, or equals
  the last text sent, or equals the last text received, these two taken as they are at
  that moment; it then leaves the connection as it is. Otherwise it writes the frame of
  the text and records it as the last text sent. The flag is not tested again, whatever
  it has become during the read.
\<close>

theorem sample_decision:
  "(skipNextCheck st \<longrightarrow> tick_start st = (st\<lparr>skipNextCheck := False\<rparr>, False))
   \<and> (\<not> skipNextCheck st \<longrightarrow> tick_start st = (st, True))
   \<and> (snd (tick_finish st' (Inr stdout)) = None)
     = (trim stdout = [] \<or> trim stdout = lastClipboardContent st'
          \<or> trim stdout = lastClientContent st')
   \<and> fst (tick_finish st' (Inr stdout))
     = (if trim stdout = [] \<or> trim stdout = lastClipboardContent st'
           \<or> trim stdout = lastClientContent st'
        then st'
        else st'\<lparr>lastClipboardContent := trim stdout\<rparr>)
   \<and> snd (tick_finish st' (Inr stdout))
       \<in> {None, Some (Buffer_from (message (trim stdout)))}
   \<and> checkAndSendClipboardData st read
     = (if skipNextCheck st then (st\<lparr>skipNextCheck := False\<rparr>, None)
        else tick_finish st read)"
  by (simp add: tick_defs)

theorem sample_decision_witness:
  "skipNextCheck (fresh_connection\<lparr>skipNextCheck := True\<rparr>)
   \<and> tick_start (fresh_connection\<lparr>skipNextCheck := True\<rparr>) = (fresh_connection, False)
   \<and> \<not> skipNextCheck fresh_connection
   \<and> tick_start fresh_connection = (fresh_connection, True)
   \<and> tick_finish fresh_connection (Inr (ascii '' c ''))
       = (fresh_connection\<lparr>lastClipboardContent := ascii ''c''\<rparr>,
          Some (Buffer_from (message (ascii ''c''))))"
proof -
  have flag: "skipNextCheck (fresh_connection\<lparr>skipNextCheck := True\<rparr>)"
    by simp
  have cleared: "fresh_connection\<lparr>skipNextCheck := True, skipNextCheck := False\<rparr>
      = fresh_connection"
    by (simp add: fresh_connection_def)
  have nonempty: "ascii ''c'' \<noteq> []"
    by (simp add: ascii_def)
  have fields: "\<not> skipNextCheck fresh_connection"
      "lastClipboardContent fresh_connection = []"
      "lastClientContent fresh_connection = []"
    by (simp_all add: fresh_connection_def)
  from sample_decision [of "fresh_connection\<lparr>skipNextCheck := True\<rparr>"] flag cleared
  have first: "tick_start (fresh_connection\<lparr>skipNextCheck := True\<rparr>)
      = (fresh_connection, False)"
    by simp
  from sample_decision [of fresh_connection] fields(1)
  have second: "tick_start fresh_connection = (fresh_connection, True)"
    by blast
  note inst = sample_decision [of fresh_connection fresh_connection "ascii '' c ''" "Inl ExecError"]
  from inst have "(snd (tick_finish fresh_connection (Inr (ascii '' c ''))) = None)
      = (trim (ascii '' c '') = [] \<or> trim (ascii '' c '') = lastClipboardContent fresh_connection
          \<or> trim (ascii '' c '') = lastClientContent fresh_connection)"
    by blast
  with nonempty fields have sent: "snd (tick_finish fresh_connection (Inr (ascii '' c ''))) \<noteq> None"
    by (simp add: trim_ascii_c)
  from inst have "snd (tick_finish fresh_connection (Inr (ascii '' c '')))
      \<in> {None, Some (Buffer_from (message (trim (ascii '' c ''))))}"
    by blast
  with sent have bytes: "snd (tick_finish fresh_connection (Inr (ascii '' c '')))
      = Some (Buffer_from (message (ascii ''c'')))"
    by (auto simp: trim_ascii_c)
  from inst have "fst (tick_finish fresh_connection (Inr (ascii '' c '')))
     = (if trim (ascii '' c '') = [] \<or> trim (ascii '' c '') = lastClipboardContent fresh_connection
           \<or> trim (ascii '' c '') = lastClientContent fresh_connection
        then fresh_connection
        else fresh_connection\<lparr>lastClipboardContent := trim (ascii '' c '')\<rparr>)"
    by blast
  with nonempty fields have "fst (tick_finish fresh_connection (Inr (ascii '' c '')))
      = fresh_connection\<lparr>lastClipboardContent := ascii ''c''\<rparr>"
    by (simp add: trim_ascii_c)
  with bytes have third: "tick_finish fresh_connection (Inr (ascii '' c ''))
       = (fresh_connection\<lparr>lastClipboardContent := ascii ''c''\<rparr>,
          Some (Buffer_from (message (ascii ''c''))))"
    by (simp add: prod_eq_iff)
  from flag first fields(1) second third show ?thesis
    by simp
qed

text \<open>
  C5 as the claim states it fails when a received text is applied while the clipboard is
  being read. The tick starts with the flag clear and reads; the write of \<open>a\<close> succeeds
  meanwhile and sets the flag; the read returns \<open>b\<close>. The flag is set when the sample is
  judged, yet the tick sends \<open>b\<close>, and the flag is still set afterwards.
\<close>

theorem sample_decision_counterexample:
  "tick_start fresh_connection = (fresh_connection, True)
   \<and> skipNextCheck (write_settled fresh_connection (ascii ''a'') (Inr ()))
   \<and> snd (tick_finish (write_settled fresh_connection (ascii ''a'') (Inr ()))
            (Inr (ascii ''b'')))
       = Some (Buffer_from (message (ascii ''b'')))
   \<and> skipNextCheck (fst (tick_finish (write_settled fresh_connection (ascii ''a'') (Inr ()))
            (Inr (ascii ''b''))))"
proof -
  have differ: "ascii ''b'' \<noteq> []" "ascii ''b'' \<noteq> ascii ''a''"
    by (simp_all add: ascii_def)
  then show ?thesis
    by (simp add: tick_defs write_settled_def fresh_connection_def trim_ascii_b)
qed

text \<open>
  C6, as the code has it. When the write of a received text \<open>v\<close> has succeeded, \<open>v\<close> is the
  last text received and the flag is set. The tick that follows finds the flag, clears it
  and reads nothing. Where the clipboard then reads as \<open>v\<close> once trimmed, which needs
  \<open>v\<close> to have no white space at its ends, the next tick sends nothing; and a later
  tick that reads a new text \<open>w\<close>, not empty and different from the last text sent and
  from \<open>v\<close>, sends \<open>w\<close>. No other text is applied during these ticks.
\<close>

theorem echo_suppressed_after_receive:
  assumes "st1 = write_settled st v (Inr ())"
    and "st2 = st1\<lparr>skipNextCheck := False\<rparr>"
    and "trim stdout = v"
    and "trim stdout' = w" and "w \<noteq> []" and "w \<noteq> lastClipboardContent st" and "w \<noteq> v"
  shows "lastClientContent st1 = v \<and> skipNextCheck st1
    \<and> lastClipboardContent st1 = lastClipboardContent st \<and> buffer st1 = buffer st
    \<and> tick_start st1 = (st2, False)
    \<and> checkAndSendClipboardData st1 read = (st2, None)
    \<and> tick_start st2 = (st2, True)
    \<and> tick_finish st2 (Inr stdout) = (st2, None)
    \<and> checkAndSendClipboardData st2 (Inr stdout) = (st2, None)
    \<and> tick_finish st2 (Inr stdout')
        = (st2\<lparr>lastClipboardContent := w\<rparr>, Some (Buffer_from (message w)))
    \<and> checkAndSendClipboardData st2 (Inr stdout')
        = (st2\<lparr>lastClipboardContent := w\<rparr>, Some (Buffer_from (message w)))"
  using assms by (simp add: write_settled_def tick_defs)

lemma trim_hello: "trim (ascii ''hello'') = ascii ''hello''"
  by (simp add: trim_def ascii_def is_space_def)

lemma trim_world: "trim (ascii ''world'') = ascii ''world''"
  by (simp add: trim_def ascii_def is_space_def)

theorem echo_suppressed_after_receive_witness:
  "checkAndSendClipboardData (write_settled fresh_connection (ascii ''hello'') (Inr ()))
       (Inr (ascii ''hello''))
     = (fresh_connection\<lparr>lastClientContent := ascii ''hello''\<rparr>, None)
   \<and> checkAndSendClipboardData (fresh_connection\<lparr>lastClientContent := ascii ''hello''\<rparr>)
       (Inr (ascii ''hello''))
     = (fresh_connection\<lparr>lastClientContent := ascii ''hello''\<rparr>, None)
   \<and> checkAndSendClipboardData (fresh_connection\<lparr>lastClientContent := ascii ''hello''\<rparr>)
       (Inr (ascii ''world''))
     = (fresh_connection\<lparr>lastClientContent := ascii ''hello'',
                           lastClipboardContent := ascii ''world''\<rparr>,
        Some (Buffer_from (message (ascii ''world''))))"
proof -
  let ?st1 = "write_settled fresh_connection (ascii ''hello'') (Inr ())"
  let ?st2 = "?st1\<lparr>skipNextCheck := False\<rparr>"
  have new: "ascii ''world'' \<noteq> []" "ascii ''world'' \<noteq> lastClipboardContent fresh_connection"
      "ascii ''world'' \<noteq> ascii ''hello''"
    by (simp_all add: ascii_def fresh_connection_def)
  note run = echo_suppressed_after_receive
    [OF refl refl trim_hello trim_world new, of "Inr (ascii ''hello'')"]
  have st2: "?st2 = fresh_connection\<lparr>lastClientContent := ascii ''hello''\<rparr>"
    by (simp add: write_settled_def fresh_connection_def)
  from run have first: "checkAndSendClipboardData ?st1 (Inr (ascii ''hello'')) = (?st2, None)"
    by blast
  from run have second: "checkAndSendClipboardData ?st2 (Inr (ascii ''hello'')) = (?st2, None)"
    by blast
  from run have third: "checkAndSendClipboardData ?st2 (Inr (ascii ''world''))
      = (?st2\<lparr>lastClipboardContent := ascii ''world''\<rparr>,
         Some (Buffer_from (message (ascii ''world''))))"
    by blast
  from first second third show ?thesis
    unfolding st2 by blast
qed

text \<open>
  C6 as the claim states it fails for a text with white space at its ends. The body
  \<open>x\<close> with a space before it is stored as received; the clipboard, unchanged, reads as
  that body, which is trimmed to \<open>x\<close> before it is compared. The first tick finds the
  flag; the second one sends \<open>x\<close> back.
\<close>

theorem echo_suppressed_counterexample:
  "checkAndSendClipboardData (write_settled fresh_connection (ascii '' x'') (Inr ()))
       (Inr (ascii '' x''))
     = (fresh_connection\<lparr>lastClientContent := ascii '' x''\<rparr>, None)
   \<and> checkAndSendClipboardData (fresh_connection\<lparr>lastClientContent := ascii '' x''\<rparr>)
       (Inr (ascii '' x''))
     = (fresh_connection\<lparr>lastClientContent := ascii '' x'',
                           lastClipboardContent := ascii ''x''\<rparr>,
        Some (Buffer_from (message (ascii ''x''))))"
proof -
  have trimmed: "trim (ascii '' x'') = ascii ''x''"
    by (simp add: trim_def ascii_def is_space_def)
  have differ: "ascii ''x'' \<noteq> []" "ascii ''x'' \<noteq> ascii '' x''"
    by (simp_all add: ascii_def)
  then show ?thesis
    by (simp add: tick_defs write_settled_def fresh_connection_def trimmed)
qed



section \<open>The extraction loop\<close>

declare process_buffer.simps [simp del]

declare decimal.simps [simp del]

lemmas eval_defs = decimal.simps digit_def tryExtractOne_def find_delimiter_def ascii_def CRLFCRLF_def LFLF_def
  match_here_def is_digit_def lower_def parseInt_def byteLength_def Buffer_from_def
  utf8_of_cp_def is_high_surrogate_def is_low_surrogate_def

lemma find_delimiter_length:
  "find_delimiter buf = Some (h, d) \<Longrightarrow> d = 4 \<or> d = 2"
  by (auto simp: find_delimiter_def split: option.splits)

lemma tryExtractOne_Nil: "tryExtractOne [] = Incomplete"
  by (simp add: tryExtractOne_def find_delimiter_def CRLFCRLF_def LFLF_def)

lemma Message_shrinks:
  assumes "tryExtractOne buf = Message body rest"
  shows "length rest < length buf"
proof -
  from assms obtain h d n
    where rest: "rest = drop n (drop (h + d) buf)"
      and found: "find_delimiter buf = Some (h, d)"
    by (auto simp: tryExtractOne_def Let_def split: option.splits if_splits)
  from found have "0 < d"
    using find_delimiter_length by fastforce
  moreover from assms have "buf \<noteq> []"
    using tryExtractOne_Nil by auto
  ultimately show ?thesis
    using rest by (cases buf) auto
qed

lemma process_fuel_enough:
  "length buf < k \<Longrightarrow> process_fuel k buf = Some (process_buffer buf)"
proof (induction buf arbitrary: k rule: process_buffer.induct)
  case (1 buf)
  from "1.prems" obtain j where k: "k = Suc j"
    by (cases k) auto
  show ?case
  proof (cases "buf = []")
    case True
    then show ?thesis
      by (simp add: k process_buffer.simps)
  next
    case False
    show ?thesis
    proof (cases "tryExtractOne buf")
      case Incomplete
      with False show ?thesis
        by (simp add: k process_buffer.simps [of buf])
    next
      case Malformed
      with False show ?thesis
        by (simp add: k process_buffer.simps [of buf])
    next
      case (Message body rest)
      show ?thesis
      proof (cases "exec_throws body")
        case True
        with False Message show ?thesis
          by (simp add: k process_buffer.simps [of buf])
      next
        case quiet: False
        from Message have "length rest < length buf"
          by (rule Message_shrinks)
        with "1.prems" k have "length rest < j"
          by simp
        with "1.IH" [OF False Message quiet]
        have "process_fuel j rest = Some (process_buffer rest)"
          by simp
        with False Message quiet show ?thesis
          by (simp add: k process_buffer.simps [of buf] split: sum.splits prod.splits)
      qed
    qed
  qed
qed

lemma match_Content_Length_nonempty:
  "match_Content_Length header = Some digits \<Longrightarrow> header \<noteq> []"
  by auto

text \<open>
  C10. The loop terminates on every buffer: a pass that hands over a message leaves a
  strictly shorter buffer, every other pass leaves the loop, and so one pass more than the
  buffer has code units is always enough.
\<close>

theorem extraction_loop_terminates:
  "(\<forall>body rest. tryExtractOne buf = Message body rest \<longrightarrow> length rest < length buf)
   \<and> process_fuel (Suc (length buf)) buf = Some (process_buffer buf)"
proof -
  have "process_fuel (Suc (length buf)) buf = Some (process_buffer buf)"
    by (rule process_fuel_enough) simp
  with Message_shrinks show ?thesis
    by blast
qed

theorem extraction_loop_terminates_witness:
  "tryExtractOne (ascii ''Content-Length: 1'' @ CRLFCRLF @ ascii ''xy'')
     = Message (ascii ''x'') (ascii ''y'')
   \<and> length (ascii ''y'') < length (ascii ''Content-Length: 1'' @ CRLFCRLF @ ascii ''xy'')
   \<and> process_fuel (Suc (length (ascii ''Content-Length: 1'' @ CRLFCRLF @ ascii ''xy'')))
         (ascii ''Content-Length: 1'' @ CRLFCRLF @ ascii ''xy'')
       = Some (process_buffer (ascii ''Content-Length: 1'' @ CRLFCRLF @ ascii ''xy''))"
proof -
  have step: "tryExtractOne (ascii ''Content-Length: 1'' @ CRLFCRLF @ ascii ''xy'')
      = Message (ascii ''x'') (ascii ''y'')"
    by (simp add: eval_defs)
  with extraction_loop_terminates [of "ascii ''Content-Length: 1'' @ CRLFCRLF @ ascii ''xy''"]
  show ?thesis
    by blast
qed

text \<open>
  C9. A pass ends as \<open>Incomplete\<close> exactly when the buffer holds neither delimiter, or
  when the text after the delimiter has fewer bytes (in UTF-8, not code units) than the
  header announces. The loop then returns at once and the buffer stays as it is.
\<close>

theorem incomplete_keeps_buffer:
  "(tryExtractOne buf = Incomplete)
     = (find_delimiter buf = None
        \<or> (\<exists>h d digits. find_delimiter buf = Some (h, d)
              \<and> match_Content_Length (take h buf) = Some digits
              \<and> byteLength (drop (h + d) buf) < parseInt digits))
   \<and> (tryExtractOne buf = Incomplete \<longrightarrow>
        process_buffer buf = Inr ([], buf)
        \<and> (\<forall>st data. buffer st @ toString_utf8 data = buf \<longrightarrow>
              on_data st data = Inr (st\<lparr>buffer := buf\<rparr>, [])))"
proof -
  have "(tryExtractOne buf = Incomplete)
     = (find_delimiter buf = None
        \<or> (\<exists>h d digits. find_delimiter buf = Some (h, d)
              \<and> match_Content_Length (take h buf) = Some digits
              \<and> byteLength (drop (h + d) buf) < parseInt digits))"
    by (auto simp: tryExtractOne_def Let_def split: option.splits)
  moreover have "process_buffer buf = Inr ([], buf)" if "tryExtractOne buf = Incomplete"
    using that by (simp add: process_buffer.simps [of buf])
  ultimately show ?thesis
    by (auto simp: on_data_def)
qed

theorem incomplete_keeps_buffer_witness:
  "tryExtractOne (ascii ''Content-Length: 5'' @ CRLFCRLF @ [0xE9]) = Incomplete
   \<and> process_buffer (ascii ''Content-Length: 5'' @ CRLFCRLF @ [0xE9])
       = Inr ([], ascii ''Content-Length: 5'' @ CRLFCRLF @ [0xE9])
   \<and> on_data (fresh_connection\<lparr>buffer := ascii ''Content-Length: 5''\<rparr>)
         [0x0D, 0x0A, 0x0D, 0x0A, 0xC3, 0xA9]
       = Inr (fresh_connection\<lparr>buffer := ascii ''Content-Length: 5'' @ CRLFCRLF @ [0xE9]\<rparr>,
              [])"
proof -
  have step: "tryExtractOne (ascii ''Content-Length: 5'' @ CRLFCRLF @ [0xE9]) = Incomplete"
    by (simp add: eval_defs)
  have chunk: "buffer (fresh_connection\<lparr>buffer := ascii ''Content-Length: 5''\<rparr>)
      @ toString_utf8 [0x0D, 0x0A, 0x0D, 0x0A, 0xC3, 0xA9]
      = ascii ''Content-Length: 5'' @ CRLFCRLF @ [0xE9]"
    by (simp add: toString_utf8_def units_of_cp_def cont_def CRLFCRLF_def)
  note inst = incomplete_keeps_buffer [of "ascii ''Content-Length: 5'' @ CRLFCRLF @ [0xE9]"]
  from inst step have kept: "process_buffer (ascii ''Content-Length: 5'' @ CRLFCRLF @ [0xE9])
      = Inr ([], ascii ''Content-Length: 5'' @ CRLFCRLF @ [0xE9])"
    by blast
  from inst step have "\<forall>st data.
      buffer st @ toString_utf8 data = ascii ''Content-Length: 5'' @ CRLFCRLF @ [0xE9] \<longrightarrow>
      on_data st data
        = Inr (st\<lparr>buffer := ascii ''Content-Length: 5'' @ CRLFCRLF @ [0xE9]\<rparr>, [])"
    by blast
  with chunk have "on_data (fresh_connection\<lparr>buffer := ascii ''Content-Length: 5''\<rparr>)
         [0x0D, 0x0A, 0x0D, 0x0A, 0xC3, 0xA9]
       = Inr (fresh_connection\<lparr>buffer := ascii ''Content-Length: 5'',
            buffer := ascii ''Content-Length: 5'' @ CRLFCRLF @ [0xE9]\<rparr>, [])"
    by blast
  with step kept show ?thesis
    by simp
qed

text \<open>
  C8. When a delimiter is found and the header before it has no \<open>Content-Length\<close>
  with digits, the pass ends as \<open>Malformed\<close>: the loop returns with an empty buffer and
  hands nothing over, whatever followed the delimiter.
\<close>

theorem malformed_clears_buffer:
  assumes "find_delimiter buf = Some (h, d)"
    and "match_Content_Length (take h buf) = None"
  shows "tryExtractOne buf = Malformed \<and> process_buffer buf = Inr ([], [])
    \<and> (\<forall>st data. buffer st @ toString_utf8 data = buf \<longrightarrow>
          on_data st data = Inr (st\<lparr>buffer := []\<rparr>, []))"
proof -
  from assms have step: "tryExtractOne buf = Malformed"
    by (simp add: tryExtractOne_def)
  moreover from assms(1) have "buf \<noteq> []"
    by (auto simp: find_delimiter_def CRLFCRLF_def LFLF_def)
  ultimately have "process_buffer buf = Inr ([], [])"
    by (simp add: process_buffer.simps [of buf])
  with step show ?thesis
    by (simp add: on_data_def)
qed

theorem malformed_clears_buffer_witness:
  "tryExtractOne (ascii ''garbage'' @ CRLFCRLF @ ascii ''body'' @ message (ascii ''x''))
     = Malformed
   \<and> process_buffer (ascii ''garbage'' @ CRLFCRLF @ ascii ''body'' @ message (ascii ''x''))
     = Inr ([], [])
   \<and> on_data fresh_connection
        (Buffer_from (ascii ''garbage'' @ CRLFCRLF @ ascii ''body'' @ message (ascii ''x'')))
     = Inr (fresh_connection, [])"
proof -
  let ?buf = "ascii ''garbage'' @ CRLFCRLF @ ascii ''body'' @ message (ascii ''x'')"
  have msg: "message (ascii ''x'') = ascii ''Content-Length: 1'' @ CRLFCRLF @ ascii ''x''"
    by (simp add: message_def eval_defs)
  have found: "find_delimiter ?buf = Some (7, 4)"
    by (simp add: msg) (simp add: eval_defs)
  have header: "match_Content_Length (take 7 ?buf) = None"
    by (simp add: eval_defs)
  have chunk: "buffer fresh_connection @ toString_utf8 (Buffer_from ?buf) = ?buf"
    unfolding msg
    by (simp add: toString_utf8_def units_of_cp_def cont_def fresh_connection_def eval_defs)
  have same: "fresh_connection\<lparr>buffer := []\<rparr> = fresh_connection"
    by (simp add: fresh_connection_def)
  from malformed_clears_buffer [OF found header] chunk same
  show ?thesis
    by metis
qed

section \<open>Frames\<close>

lemma indexOf_first:
  assumes "pat \<noteq> []" and "hd pat \<notin> set xs"
  shows "indexOf (xs @ pat @ ys) pat = Some (length xs)"
  using assms(2)
proof (induction xs)
  case Nil
  from assms(1) show ?case
    by (cases pat) simp_all
next
  case (Cons x xs)
  from assms(1) Cons.prems have "\<not> prefix pat (x # xs @ pat @ ys)"
    by (cases pat) auto
  with Cons show ?case
    by simp
qed

lemma indexOf_absent:
  assumes "pat \<noteq> []" and "hd pat \<notin> set xs"
  shows "indexOf (xs @ ys) pat = map_option (\<lambda>i. length xs + i) (indexOf ys pat)"
  using assms(2)
proof (induction xs)
  case Nil
  show ?case
    by (simp add: option.map_ident)
next
  case (Cons x xs)
  from assms(1) Cons.prems have "\<not> prefix pat (x # xs @ ys)"
    by (cases pat) auto
  with Cons show ?case
    by (simp add: option.map_comp comp_def)
qed

lemma unat_digit: "d < 10 \<Longrightarrow> unat (digit d) = 0x30 + d"
  unfolding digit_def by (rule unat_of_nat_unit) simp

lemma is_digit_digit: "d < 10 \<Longrightarrow> is_digit (digit d)"
  by (simp add: is_digit_def unat_digit)

lemma decimal_digits: "list_all is_digit (decimal n)"
proof (induction n rule: decimal.induct)
  case (1 n)
  show ?case
  proof (cases "n < 10")
    case True
    then show ?thesis
      by (subst decimal.simps) (simp add: is_digit_digit)
  next
    case False
    with 1 show ?thesis
      by (subst decimal.simps) (simp add: is_digit_digit)
  qed
qed

lemma decimal_nonempty: "decimal n \<noteq> []"
  by (subst decimal.simps) simp

lemma parseInt_snoc: "parseInt (ds @ [d]) = 10 * parseInt ds + (unat d - 0x30)"
  by (simp add: parseInt_def)

lemma parseInt_decimal: "parseInt (decimal n) = n"
proof (induction n rule: decimal.induct)
  case (1 n)
  show ?case
  proof (cases "n < 10")
    case True
    then have "decimal n = [digit n]"
      by (subst decimal.simps) simp
    with True show ?thesis
      by (simp add: parseInt_def unat_digit)
  next
    case False
    then have "decimal n = decimal (n div 10) @ [digit (n mod 10)]"
      by (subst decimal.simps) simp
    with False 1 show ?thesis
      by (simp add: parseInt_snoc unat_digit)
  qed
qed

lemma key_length: "length (ascii ''Content-Length: '') = 16"
  by (simp add: ascii_def)

lemma key_lower: "map lower (ascii ''Content-Length: '') = ascii ''content-length: ''"
  by (simp add: ascii_def lower_def)

lemma match_here_header:
  "match_here (ascii ''Content-Length: '' @ decimal n @ rest)
     = Some (takeWhile is_digit (decimal n @ rest))"
proof -
  have "takeWhile is_digit (decimal n @ rest) \<noteq> []"
    using decimal_digits [of n] decimal_nonempty [of n]
    by (cases "decimal n") simp_all
  then show ?thesis
    by (simp add: match_here_def key_length key_lower)
qed

lemma match_Content_Length_here:
  "match_here s = Some ds \<Longrightarrow> match_Content_Length s = Some ds"
  by (cases s) (simp_all add: match_here_def ascii_def)

lemma takeWhile_all: "list_all P xs \<Longrightarrow> takeWhile P xs = xs"
  by (induction xs) simp_all

lemma match_Content_Length_header:
  "match_Content_Length (ascii ''Content-Length: '' @ decimal n) = Some (decimal n)"
  using match_here_header [of n "[]"] decimal_digits [of n]
  by (simp add: match_Content_Length_here takeWhile_all)

lemma digit_not_break: "is_digit u \<Longrightarrow> u \<noteq> 0x0D \<and> u \<noteq> 0x0A"
  by (auto simp: is_digit_def)

lemma decimal_no_break: "0x0D \<notin> set (decimal n) \<and> 0x0A \<notin> set (decimal n)"
  using decimal_digits [of n] digit_not_break
  by (auto simp: list_all_iff)

lemma header_no_break:
  "0x0D \<notin> set (ascii ''Content-Length: '' @ decimal n)
   \<and> 0x0A \<notin> set (ascii ''Content-Length: '' @ decimal n)"
  using decimal_no_break [of n] by (simp add: ascii_def)

lemma find_delimiter_message:
  "find_delimiter ((ascii ''Content-Length: '' @ decimal n) @ CRLFCRLF @ rest)
     = Some (length (ascii ''Content-Length: '' @ decimal n), 4)"
proof -
  have "indexOf ((ascii ''Content-Length: '' @ decimal n) @ CRLFCRLF @ rest) CRLFCRLF
      = Some (length (ascii ''Content-Length: '' @ decimal n))"
    using header_no_break [of n] by (intro indexOf_first) (simp_all add: CRLFCRLF_def)
  then show ?thesis
    by (simp add: find_delimiter_def)
qed

lemma tryExtractOne_message:
  "tryExtractOne (message s @ rest)
     = (if byteLength (s @ rest) < byteLength s then Incomplete
        else Message (take (byteLength s) (s @ rest)) (drop (byteLength s) (s @ rest)))"
proof -
  define header where "header = ascii ''Content-Length: '' @ decimal (byteLength s)"
  have buf: "message s @ rest = header @ CRLFCRLF @ s @ rest"
    by (simp add: message_def header_def)
  have found: "find_delimiter (header @ CRLFCRLF @ s @ rest) = Some (length header, 4)"
    unfolding header_def by (rule find_delimiter_message)
  have matched: "match_Content_Length header = Some (decimal (byteLength s))"
    unfolding header_def by (rule match_Content_Length_header)
  have content: "drop (length header + 4) (header @ CRLFCRLF @ s @ rest) = s @ rest"
    by (simp add: CRLFCRLF_def)
  have header: "take (length header) (header @ CRLFCRLF @ s @ rest) = header"
    by simp
  have "tryExtractOne (header @ CRLFCRLF @ s @ rest)
      = (if byteLength (s @ rest) < byteLength s then Incomplete
         else Message (take (byteLength s) (s @ rest)) (drop (byteLength s) (s @ rest)))"
    unfolding tryExtractOne_def
    by (simp only: found option.case prod.case Let_def header content matched parseInt_decimal)
  then show ?thesis
    by (simp only: buf)
qed

lemma tryExtractOne_one_message: "tryExtractOne (message s) = Message s []"
  using tryExtractOne_message [of s "[]"] length_le_byteLength [of s] by simp

lemma message_nonempty: "message s \<noteq> []"
  by (simp add: message_def ascii_def)

lemma process_buffer_Nil: "process_buffer [] = Inr ([], [])"
  by (simp add: process_buffer.simps)

lemma process_buffer_one_message:
  "process_buffer (message s) = (if exec_throws s then Inl InvalidArgValue else Inr ([s], []))"
  by (subst process_buffer.simps)
    (simp add: message_nonempty tryExtractOne_one_message process_buffer_Nil)

lemma well_formed_Cons:
  "\<not> is_high_surrogate u \<Longrightarrow> \<not> is_low_surrogate u \<Longrightarrow> well_formed (u # s) = well_formed s"
  by (cases s) simp_all

lemma well_formed_prefix:
  "list_all (\<lambda>u. unat u < 0xD800) xs \<Longrightarrow> well_formed (xs @ s) = well_formed s"
  by (induction xs) (simp_all add: well_formed_Cons is_high_surrogate_def is_low_surrogate_def)

lemma decimal_plain: "list_all (\<lambda>u. unat u < 0xD800) (decimal n)"
  using decimal_digits [of n] by (auto simp: list_all_iff is_digit_def)

lemma well_formed_message: "well_formed (message s) = well_formed s"
proof -
  have "list_all (\<lambda>u. unat u < 0xD800)
      (ascii ''Content-Length: '' @ decimal (byteLength s) @ CRLFCRLF)"
    using decimal_plain [of "byteLength s"] by (simp add: ascii_def CRLFCRLF_def)
  from well_formed_prefix [OF this, of s] show ?thesis
    by (simp add: message_def)
qed

lemma on_data_fresh:
  assumes "buffer st = []" and "well_formed text"
  shows "on_data st (Buffer_from text)
     = (case process_buffer text of
          Inl err \<Rightarrow> Inl err
        | Inr (bodies, buffer') \<Rightarrow> Inr (st\<lparr>buffer := buffer'\<rparr>, bodies))"
  using assms by (simp add: on_data_def toString_Buffer_from)

lemma buffer_kept_empty: "buffer st = [] \<Longrightarrow> st\<lparr>buffer := []\<rparr> = st"
  by (cases st) simp

text \<open>
  The message that the poll tick builds for a text \<open>s\<close> without U+0000, handed to the
  loop as one buffer, gives back exactly \<open>s\<close> and leaves nothing behind. Sent as UTF-8
  bytes and received as one chunk on a connection with an empty buffer, it does so for
  every such text without a surrogate on its own, which is every such text that was itself
  decoded from UTF-8.
\<close>

theorem round_trip:
  assumes "\<not> exec_throws s"
  shows "process_buffer (message s) = Inr ([s], [])
   \<and> (well_formed s \<and> buffer st = [] \<longrightarrow>
        on_data st (Buffer_from (message s)) = Inr (st, [s]))"
  using assms on_data_fresh [of st "message s"]
  by (simp add: process_buffer_one_message well_formed_message buffer_kept_empty)

theorem round_trip_witness:
  "\<not> exec_throws [0xE9, 0xD83D, 0xDE00, 0x0D, 0x0A, 0x0D, 0x0A, 0x0A]
   \<and> well_formed [0xE9, 0xD83D, 0xDE00, 0x0D, 0x0A, 0x0D, 0x0A, 0x0A]
   \<and> buffer fresh_connection = []
   \<and> on_data fresh_connection
        (Buffer_from (message [0xE9, 0xD83D, 0xDE00, 0x0D, 0x0A, 0x0D, 0x0A, 0x0A]))
     = Inr (fresh_connection, [[0xE9, 0xD83D, 0xDE00, 0x0D, 0x0A, 0x0D, 0x0A, 0x0A]])"
proof -
  have quiet: "\<not> exec_throws [0xE9, 0xD83D, 0xDE00, 0x0D, 0x0A, 0x0D, 0x0A, 0x0A]"
    by (simp add: exec_throws_def)
  have wf: "well_formed [0xE9, 0xD83D, 0xDE00, 0x0D, 0x0A, 0x0D, 0x0A, 0x0A]"
    by (simp add: is_high_surrogate_def is_low_surrogate_def)
  have empty: "buffer fresh_connection = []"
    by (simp add: fresh_connection_def)
  from round_trip [OF quiet, of fresh_connection] quiet wf empty
  show ?thesis
    by blast
qed



lemma find_delimiter_message_lf:
  assumes "indexOf s CRLFCRLF = None"
  shows "find_delimiter ((ascii ''Content-Length: '' @ decimal n) @ LFLF @ s)
     = Some (length (ascii ''Content-Length: '' @ decimal n), 2)"
proof -
  define header where "header = ascii ''Content-Length: '' @ decimal n"
  have breaks: "0x0D \<notin> set header" "0x0A \<notin> set header"
    using header_no_break [of n] by (simp_all add: header_def)
  have "indexOf (LFLF @ s) CRLFCRLF = map_option (\<lambda>i. length LFLF + i) (indexOf s CRLFCRLF)"
    by (rule indexOf_absent) (simp_all add: CRLFCRLF_def LFLF_def)
  with assms have "indexOf (LFLF @ s) CRLFCRLF = None"
    by simp
  moreover have "indexOf (header @ LFLF @ s) CRLFCRLF
      = map_option (\<lambda>i. length header + i) (indexOf (LFLF @ s) CRLFCRLF)"
    using breaks by (intro indexOf_absent) (simp_all add: CRLFCRLF_def)
  ultimately have four: "indexOf (header @ LFLF @ s) CRLFCRLF = None"
    by simp
  have two: "indexOf (header @ LFLF @ s) LFLF = Some (length header)"
    using breaks by (intro indexOf_first) (simp_all add: LFLF_def)
  from four two show ?thesis
    by (simp add: find_delimiter_def header_def)
qed

lemma tryExtractOne_message_lf:
  assumes "indexOf s CRLFCRLF = None"
  shows "tryExtractOne (message_lf s) = Message s []"
proof -
  define header where "header = ascii ''Content-Length: '' @ decimal (byteLength s)"
  have buf: "message_lf s = header @ LFLF @ s"
    by (simp add: message_lf_def header_def)
  have found: "find_delimiter (header @ LFLF @ s) = Some (length header, 2)"
    unfolding header_def using assms by (rule find_delimiter_message_lf)
  have matched: "match_Content_Length header = Some (decimal (byteLength s))"
    unfolding header_def by (rule match_Content_Length_header)
  have header: "take (length header) (header @ LFLF @ s) = header"
    by simp
  have content: "drop (length header + 2) (header @ LFLF @ s) = s"
    by (simp add: LFLF_def)
  have "tryExtractOne (header @ LFLF @ s)
      = (if byteLength s < byteLength s then Incomplete
         else Message (take (byteLength s) s) (drop (byteLength s) s))"
    unfolding tryExtractOne_def
    by (simp only: found option.case prod.case Let_def header content matched parseInt_decimal)
  then show ?thesis
    using length_le_byteLength [of s] by (simp add: buf)
qed

lemma message_lf_nonempty: "message_lf s \<noteq> []"
  by (simp add: message_lf_def ascii_def)

lemma process_buffer_message_lf:
  "indexOf s CRLFCRLF = None \<Longrightarrow>
   process_buffer (message_lf s) = (if exec_throws s then Inl InvalidArgValue else Inr ([s], []))"
  by (subst process_buffer.simps)
    (simp add: message_lf_nonempty tryExtractOne_message_lf process_buffer_Nil)

lemma well_formed_message_lf: "well_formed (message_lf s) = well_formed s"
proof -
  have "list_all (\<lambda>u. unat u < 0xD800)
      (ascii ''Content-Length: '' @ decimal (byteLength s) @ LFLF)"
    using decimal_plain [of "byteLength s"] by (simp add: ascii_def LFLF_def)
  from well_formed_prefix [OF this, of s] show ?thesis
    by (simp add: message_lf_def)
qed

text \<open>
  C4, as the code has it. A body that does not contain the four-unit delimiter decodes
  from the frame with the two-unit delimiter exactly as from the frame with the four-unit
  one: the loop hands over the body and leaves nothing behind, on the buffer as on the
  bytes received in one chunk.
\<close>

theorem delimiter_fallback:
  assumes "indexOf s CRLFCRLF = None"
  shows "process_buffer (message_lf s) = process_buffer (message s)
    \<and> (\<not> exec_throws s \<longrightarrow> process_buffer (message_lf s) = Inr ([s], []))
    \<and> (well_formed s \<and> buffer st = [] \<longrightarrow>
         on_data st (Buffer_from (message_lf s)) = on_data st (Buffer_from (message s))
         \<and> (\<not> exec_throws s \<longrightarrow> on_data st (Buffer_from (message_lf s)) = Inr (st, [s])))"
  using assms on_data_fresh [of st "message s"] on_data_fresh [of st "message_lf s"]
  by (simp add: process_buffer_message_lf process_buffer_one_message
      well_formed_message well_formed_message_lf buffer_kept_empty)

theorem delimiter_fallback_witness:
  "indexOf [0xE9, 0x0D, 0x0A, 0x0A, 0x0A] CRLFCRLF = None
   \<and> well_formed [0xE9, 0x0D, 0x0A, 0x0A, 0x0A]
   \<and> buffer fresh_connection = []
   \<and> \<not> exec_throws [0xE9, 0x0D, 0x0A, 0x0A, 0x0A]
   \<and> process_buffer (message_lf [0xE9, 0x0D, 0x0A, 0x0A, 0x0A])
       = Inr ([[0xE9, 0x0D, 0x0A, 0x0A, 0x0A]], [])
   \<and> on_data fresh_connection (Buffer_from (message_lf [0xE9, 0x0D, 0x0A, 0x0A, 0x0A]))
       = on_data fresh_connection (Buffer_from (message [0xE9, 0x0D, 0x0A, 0x0A, 0x0A]))"
proof -
  have absent: "indexOf [0xE9, 0x0D, 0x0A, 0x0A, 0x0A] CRLFCRLF = None"
    by (simp add: CRLFCRLF_def)
  have wf: "well_formed [0xE9, 0x0D, 0x0A, 0x0A, 0x0A]"
    by (simp add: is_high_surrogate_def is_low_surrogate_def)
  have empty: "buffer fresh_connection = []"
    by (simp add: fresh_connection_def)
  have quiet: "\<not> exec_throws [0xE9, 0x0D, 0x0A, 0x0A, 0x0A]"
    by (simp add: exec_throws_def)
  from delimiter_fallback [OF absent, of fresh_connection] absent wf empty quiet
  show ?thesis
    by blast
qed

text \<open>
  C4 as the claim states it fails for a body that contains the four-unit delimiter: the
  search for that delimiter comes first and finds it inside the body, the text after it
  is shorter than announced, and the frame is never decoded.
\<close>

theorem delimiter_fallback_counterexample:
  "process_buffer (message_lf (ascii ''a'' @ CRLFCRLF @ ascii ''b''))
     = Inr ([], message_lf (ascii ''a'' @ CRLFCRLF @ ascii ''b''))
   \<and> process_buffer (message (ascii ''a'' @ CRLFCRLF @ ascii ''b''))
     = Inr ([ascii ''a'' @ CRLFCRLF @ ascii ''b''], [])
   \<and> process_buffer (message_lf (ascii ''a'' @ CRLFCRLF @ ascii ''b''))
     \<noteq> process_buffer (message (ascii ''a'' @ CRLFCRLF @ ascii ''b''))"
proof -
  have len: "byteLength (ascii ''a'' @ CRLFCRLF @ ascii ''b'') = 6"
    by (simp add: eval_defs)
  have buf: "message_lf (ascii ''a'' @ CRLFCRLF @ ascii ''b'')
      = ascii ''Content-Length: 6'' @ LFLF @ ascii ''a'' @ CRLFCRLF @ ascii ''b''"
    unfolding message_lf_def len by (simp add: eval_defs)
  have step: "tryExtractOne (ascii ''Content-Length: 6'' @ LFLF @ ascii ''a'' @ CRLFCRLF @ ascii ''b'')
      = Incomplete"
    by (simp add: eval_defs)
  have "process_buffer (ascii ''Content-Length: 6'' @ LFLF @ ascii ''a'' @ CRLFCRLF @ ascii ''b'')
      = Inr ([], ascii ''Content-Length: 6'' @ LFLF @ ascii ''a'' @ CRLFCRLF @ ascii ''b'')"
    by (subst process_buffer.simps) (simp add: step)
  moreover have "\<not> exec_throws (ascii ''a'' @ CRLFCRLF @ ascii ''b'')"
    by (simp add: exec_throws_def ascii_def CRLFCRLF_def)
  ultimately show ?thesis
    by (simp add: buf process_buffer_one_message)
qed

section \<open>Bodies beyond ASCII\<close>

text \<open>
  C2 fails on the code. The body is cut with \<open>slice\<close>, which counts code units, at the
  length that the header gives in bytes. For the text U+00E9, two bytes and one code unit,
  followed by the frame of \<open>x\<close>, the first body takes the first letter of the next header
  with it, and what is left of that header is then dropped as malformed: one wrong body
  instead of two bodies.
\<close>

theorem two_messages_evaluated:
  "byteLength [0xE9] = 2 \<and> length [0xE9 :: code_unit] = 1
   \<and> tryExtractOne (message [0xE9] @ message (ascii ''x''))
       = Message [0xE9, 0x43] (ascii ''ontent-Length: 1'' @ CRLFCRLF @ ascii ''x'')
   \<and> tryExtractOne (ascii ''ontent-Length: 1'' @ CRLFCRLF @ ascii ''x'') = Malformed
   \<and> process_buffer (message [0xE9] @ message (ascii ''x'')) = Inr ([[0xE9, 0x43]], [])"
proof -
  have len: "byteLength [0xE9] = 2"
    by (simp add: eval_defs)
  have first: "message [0xE9] = ascii ''Content-Length: 2'' @ CRLFCRLF @ [0xE9]"
    unfolding message_def len by (simp add: eval_defs)
  have second: "message (ascii ''x'') = ascii ''Content-Length: 1'' @ CRLFCRLF @ ascii ''x''"
    by (simp add: message_def eval_defs)
  have step1: "tryExtractOne (message [0xE9] @ message (ascii ''x''))
      = Message [0xE9, 0x43] (ascii ''ontent-Length: 1'' @ CRLFCRLF @ ascii ''x'')"
    unfolding first second by (simp add: eval_defs)
  have step2: "tryExtractOne (ascii ''ontent-Length: 1'' @ CRLFCRLF @ ascii ''x'') = Malformed"
    by (simp add: eval_defs)
  have rest: "process_buffer (ascii ''ontent-Length: 1'' @ CRLFCRLF @ ascii ''x'') = Inr ([], [])"
    by (subst process_buffer.simps) (simp add: step2)
  have "process_buffer (message [0xE9] @ message (ascii ''x'')) = Inr ([[0xE9, 0x43]], [])"
    by (subst process_buffer.simps) (simp add: step1 rest message_nonempty exec_throws_def)
  with len step1 step2 show ?thesis
    by simp
qed

text \<open>
  C3 fails on the code. Each chunk is decoded on its own, so a character whose bytes
  arrive in two chunks becomes U+FFFD twice. For the frame of U+00E9 cut between its two
  bytes, the first chunk already gives a body, U+FFFD and not the text sent, and the
  second chunk leaves a stray U+FFFD in the buffer.
\<close>

theorem split_character_evaluated:
  "Buffer_from (message [0xE9])
     = (Buffer_from (ascii ''Content-Length: 2'' @ CRLFCRLF) @ [0xC3]) @ [0xA9]
   \<and> feed fresh_connection
        [Buffer_from (ascii ''Content-Length: 2'' @ CRLFCRLF) @ [0xC3], [0xA9]]
     = Inr (fresh_connection\<lparr>buffer := [0xFFFD]\<rparr>, [[0xFFFD]])"
proof -
  have len: "byteLength [0xE9] = 2"
    by (simp add: eval_defs)
  have whole: "Buffer_from (message [0xE9])
      = (Buffer_from (ascii ''Content-Length: 2'' @ CRLFCRLF) @ [0xC3]) @ [0xA9]"
    unfolding message_def len by (simp add: eval_defs)
  have chunk1: "toString_utf8 (Buffer_from (ascii ''Content-Length: 2'' @ CRLFCRLF) @ [0xC3])
      = ascii ''Content-Length: 2'' @ CRLFCRLF @ [0xFFFD]"
    by (simp add: toString_utf8_def units_of_cp_def cont_def eval_defs)
  have chunk2: "toString_utf8 [0xA9] = [0xFFFD]"
    by (simp add: toString_utf8_def units_of_cp_def)
  have step1: "tryExtractOne (ascii ''Content-Length: 2'' @ CRLFCRLF @ [0xFFFD])
      = Message [0xFFFD] []"
    by (simp add: eval_defs)
  have loop1: "process_buffer (ascii ''Content-Length: 2'' @ CRLFCRLF @ [0xFFFD])
      = Inr ([[0xFFFD]], [])"
    by (subst process_buffer.simps) (simp add: step1 process_buffer_Nil exec_throws_def)
  have step2: "tryExtractOne [0xFFFD] = Incomplete"
    by (simp add: eval_defs)
  have loop2: "process_buffer [0xFFFD] = Inr ([], [0xFFFD])"
    by (subst process_buffer.simps) (simp add: step2)
  have event1: "on_data fresh_connection
      (Buffer_from (ascii ''Content-Length: 2'' @ CRLFCRLF) @ [0xC3])
      = Inr (fresh_connection, [[0xFFFD]])"
    by (simp add: on_data_def chunk1 loop1 fresh_connection_def)
  have event2: "on_data fresh_connection [0xA9]
      = Inr (fresh_connection\<lparr>buffer := [0xFFFD]\<rparr>, [])"
    by (simp add: on_data_def chunk2 loop2 fresh_connection_def)
  have "feed fresh_connection
        [Buffer_from (ascii ''Content-Length: 2'' @ CRLFCRLF) @ [0xC3], [0xA9]]
     = Inr (fresh_connection\<lparr>buffer := [0xFFFD]\<rparr>, [[0xFFFD]])"
    by (simp add: event1 event2)
  with whole show ?thesis
    by simp
qed

section \<open>Two frames in one buffer, and texts as they are read\<close>

lemma tryExtractOne_message_exact:
  assumes "byteLength a = length a"
  shows "tryExtractOne (message a @ rest) = Message a rest"
proof -
  have "length (a @ rest) \<le> byteLength (a @ rest)"
    by (rule length_le_byteLength)
  with assms have "\<not> byteLength (a @ rest) < byteLength a"
    by simp
  with assms show ?thesis
    by (simp add: tryExtractOne_message)
qed

text \<open>
  Where the body of the first frame has as many bytes as code units, as every ASCII text
  has, two frames in one buffer give the two bodies in order and leave nothing behind.
\<close>

theorem two_plain_messages:
  assumes "byteLength a = length a" and "\<not> exec_throws a" and "\<not> exec_throws b"
  shows "process_buffer (message a @ message b) = Inr ([a, b], [])"
proof -
  have "process_buffer (message a @ message b)
      = (case process_buffer (message b) of
           Inl err \<Rightarrow> Inl err
         | Inr (bodies, buffer') \<Rightarrow> Inr (a # bodies, buffer'))"
    by (subst process_buffer.simps)
      (simp add: message_nonempty tryExtractOne_message_exact [OF assms(1)] assms(2))
  with assms(3) show ?thesis
    by (simp add: process_buffer_one_message)
qed

theorem two_plain_messages_witness:
  "byteLength (ascii ''ab'') = length (ascii ''ab'')
   \<and> process_buffer (message (ascii ''ab'') @ message [0xE9])
       = Inr ([ascii ''ab'', [0xE9]], [])"
proof -
  have plain: "byteLength (ascii ''ab'') = length (ascii ''ab'')"
    by (simp add: eval_defs)
  have quiet: "\<not> exec_throws (ascii ''ab'')" "\<not> exec_throws [0xE9]"
    by (simp_all add: exec_throws_def ascii_def)
  from two_plain_messages [OF plain quiet] plain show ?thesis
    by blast
qed

lemma scalar_replacement: "scalar 0xFFFD"
  by (simp add: scalar_def)

lemma scalar_two:
  "0xC2 \<le> b \<Longrightarrow> b \<le> 0xDF \<Longrightarrow> cont c \<Longrightarrow> scalar ((b - 0xC0) * 64 + (c - 0x80))"
  unfolding scalar_def cont_def by linarith

lemma scalar_three:
  assumes "0xE0 \<le> b" and "b \<le> 0xEF" and "second_ok b c" and "cont d"
  shows "scalar ((b - 0xE0) * 4096 + (c - 0x80) * 64 + (d - 0x80))"
proof -
  from assms(3) have c: "0x80 \<le> c" "c \<le> 0xBF" "b = 0xED \<Longrightarrow> c \<le> 0x9F"
    by (auto simp: second_ok_def split: if_splits)
  from assms(4) have d: "0x80 \<le> d" "d \<le> 0xBF"
    by (simp_all add: cont_def)
  show ?thesis
  proof (cases "b = 0xED")
    case True
    with c d show ?thesis
      unfolding scalar_def by linarith
  next
    case False
    with assms(1,2) have "b \<le> 0xEC \<or> 0xEE \<le> b"
      by linarith
    with assms(1,2) c(1,2) d show ?thesis
      unfolding scalar_def by linarith
  qed
qed

lemma scalar_four:
  assumes "0xF0 \<le> b" and "b \<le> 0xF4" and "second_ok b c" and "cont d" and "cont e"
  shows "scalar ((b - 0xF0) * 262144 + (c - 0x80) * 4096 + (d - 0x80) * 64 + (e - 0x80))"
proof -
  from assms(3) have c: "0x80 \<le> c" "c \<le> 0xBF" "b = 0xF4 \<Longrightarrow> c \<le> 0x8F"
      "b = 0xF0 \<Longrightarrow> 0x90 \<le> c"
    by (auto simp: second_ok_def split: if_splits)
  from assms(4,5) have de: "0x80 \<le> d" "d \<le> 0xBF" "0x80 \<le> e" "e \<le> 0xBF"
    by (simp_all add: cont_def)
  show ?thesis
  proof (cases "b = 0xF4")
    case True
    with c de show ?thesis
      unfolding scalar_def by linarith
  next
    case False
    show ?thesis
    proof (cases "b = 0xF0")
      case True
      with c de show ?thesis
        unfolding scalar_def by linarith
    next
      case False
      with \<open>b \<noteq> 0xF4\<close> assms(1,2) have "0xF1 \<le> b" "b \<le> 0xF3"
        by linarith+
      with c(1,2) de show ?thesis
        unfolding scalar_def by linarith
    qed
  qed
qed

lemma utf8_scan_scalar: "list_all scalar (utf8_scan bs)"
proof (induction bs rule: length_induct)
  case (1 bs)
  then have IH: "\<And>ys. length ys < length bs \<Longrightarrow> list_all scalar (utf8_scan ys)"
    by blast
  show ?case
  proof (cases bs)
    case Nil
    then show ?thesis by simp
  next
    case (Cons b bs1)
    have tail: "list_all scalar (utf8_scan bs1)"
      using IH [of bs1] Cons by simp
    consider (one) "b < 0x80"
      | (two) "\<not> b < 0x80" "0xC2 \<le> b \<and> b \<le> 0xDF"
      | (three) "\<not> b < 0x80" "\<not> (0xC2 \<le> b \<and> b \<le> 0xDF)" "0xE0 \<le> b \<and> b \<le> 0xEF"
      | (four) "\<not> b < 0x80" "\<not> (0xC2 \<le> b \<and> b \<le> 0xDF)" "\<not> (0xE0 \<le> b \<and> b \<le> 0xEF)"
          "0xF0 \<le> b \<and> b \<le> 0xF4"
      | (bad) "\<not> b < 0x80" "\<not> (0xC2 \<le> b \<and> b \<le> 0xDF)" "\<not> (0xE0 \<le> b \<and> b \<le> 0xEF)"
          "\<not> (0xF0 \<le> b \<and> b \<le> 0xF4)"
      by blast
    then show ?thesis
    proof cases
      case one
      then have "utf8_scan (b # bs1) = b # utf8_scan bs1"
        by simp
      moreover from one have "scalar b"
        by (simp add: scalar_def)
      ultimately show ?thesis
        using tail Cons by simp
    next
      case bad
      then have "utf8_scan (b # bs1) = 0xFFFD # utf8_scan bs1"
        by (simp only: utf8_scan.simps if_False simp_thms)
      with tail Cons show ?thesis
        by (simp add: scalar_replacement)
    next
      case two
      then have eq: "utf8_scan (b # bs1) =
          (case bs1 of [] \<Rightarrow> [0xFFFD]
           | c # cs \<Rightarrow> if cont c then ((b - 0xC0) * 64 + (c - 0x80)) # utf8_scan cs
                      else 0xFFFD # utf8_scan bs1)"
        by (simp only: utf8_scan.simps if_False if_True simp_thms)
      show ?thesis
      proof (cases bs1)
        case Nil
        with eq Cons show ?thesis
          by (simp add: scalar_replacement)
      next
        case inner: (Cons c cs)
        have "list_all scalar (utf8_scan cs)"
          using IH [of cs] Cons inner by simp
        with eq Cons inner tail two show ?thesis
          by (simp add: scalar_replacement scalar_two)
      qed
    next
      case three
      then have eq: "utf8_scan (b # bs1) =
          (case bs1 of [] \<Rightarrow> [0xFFFD]
           | c # cs \<Rightarrow>
               if second_ok b c then
                 (case cs of [] \<Rightarrow> [0xFFFD]
                  | d # ds \<Rightarrow>
                      if cont d
                      then ((b - 0xE0) * 4096 + (c - 0x80) * 64 + (d - 0x80)) # utf8_scan ds
                      else 0xFFFD # utf8_scan cs)
               else 0xFFFD # utf8_scan bs1)"
        by (simp only: utf8_scan.simps if_False if_True simp_thms)
      show ?thesis
      proof (cases bs1)
        case Nil
        with eq Cons show ?thesis
          by (simp add: scalar_replacement)
      next
        case inner: (Cons c cs)
        have cs: "list_all scalar (utf8_scan cs)"
          using IH [of cs] Cons inner by simp
        show ?thesis
        proof (cases cs)
          case Nil
          with eq Cons inner tail show ?thesis
            by (simp add: scalar_replacement)
        next
          case inner2: (Cons d ds)
          have "list_all scalar (utf8_scan ds)"
            using IH [of ds] Cons inner inner2 by simp
          with eq Cons inner inner2 tail cs three show ?thesis
            by (simp add: scalar_replacement scalar_three)
        qed
      qed
    next
      case four
      then have eq: "utf8_scan (b # bs1) =
          (case bs1 of [] \<Rightarrow> [0xFFFD]
           | c # cs \<Rightarrow>
               if second_ok b c then
                 (case cs of [] \<Rightarrow> [0xFFFD]
                  | d # ds \<Rightarrow>
                      if cont d then
                        (case ds of [] \<Rightarrow> [0xFFFD]
                         | e # es \<Rightarrow>
                             if cont e
                             then ((b - 0xF0) * 262144 + (c - 0x80) * 4096
                                     + (d - 0x80) * 64 + (e - 0x80)) # utf8_scan es
                             else 0xFFFD # utf8_scan ds)
                      else 0xFFFD # utf8_scan cs)
               else 0xFFFD # utf8_scan bs1)"
        by (simp only: utf8_scan.simps if_False if_True simp_thms)
      show ?thesis
      proof (cases bs1)
        case Nil
        with eq Cons show ?thesis
          by (simp add: scalar_replacement)
      next
        case inner: (Cons c cs)
        have cs: "list_all scalar (utf8_scan cs)"
          using IH [of cs] Cons inner by simp
        show ?thesis
        proof (cases cs)
          case Nil
          with eq Cons inner tail show ?thesis
            by (simp add: scalar_replacement)
        next
          case inner2: (Cons d ds)
          have ds: "list_all scalar (utf8_scan ds)"
            using IH [of ds] Cons inner inner2 by simp
          show ?thesis
          proof (cases ds)
            case Nil
            with eq Cons inner inner2 tail cs show ?thesis
              by (simp add: scalar_replacement)
          next
            case inner3: (Cons e es)
            have "list_all scalar (utf8_scan es)"
              using IH [of es] Cons inner inner2 inner3 by simp
            with eq Cons inner inner2 inner3 tail cs ds four show ?thesis
              by (simp add: scalar_replacement scalar_four)
          qed
        qed
      qed
    qed
  qed
qed

lemma units_of_cp_well_formed:
  assumes "scalar c"
  shows "well_formed (units_of_cp c @ s) = well_formed s"
proof (cases "c < 0x10000")
  case True
  with assms have "unat (of_nat c :: code_unit) = c"
    by (intro unat_of_nat_unit) simp
  with assms True have "\<not> is_high_surrogate (of_nat c)" "\<not> is_low_surrogate (of_nat c)"
    by (auto simp: scalar_def is_high_surrogate_def is_low_surrogate_def)
  with True show ?thesis
    by (simp add: units_of_cp_def well_formed_Cons)
next
  case False
  define a where "a = (c - 0x10000) div 0x400"
  define b where "b = (c - 0x10000) mod 0x400"
  have whole: "a * 0x400 + b = c - 0x10000"
    by (simp add: a_def b_def)
  have b: "b < 0x400"
    by (simp add: b_def)
  from assms False whole b have a: "a < 0x400"
    unfolding scalar_def by linarith
  from a have "unat (of_nat (0xD800 + a) :: code_unit) = 0xD800 + a"
    by (intro unat_of_nat_unit) simp
  with a have high: "is_high_surrogate (of_nat (0xD800 + a))"
    by (simp add: is_high_surrogate_def)
  from b have "unat (of_nat (0xDC00 + b) :: code_unit) = 0xDC00 + b"
    by (intro unat_of_nat_unit) simp
  with b have low: "is_low_surrogate (of_nat (0xDC00 + b))"
    by (simp add: is_low_surrogate_def)
  from False have "units_of_cp c = [of_nat (0xD800 + a), of_nat (0xDC00 + b)]"
    by (simp only: units_of_cp_def a_def b_def if_False)
  with high low show ?thesis
    by (simp del: of_nat_add of_nat_numeral)
qed

lemma units_well_formed:
  "list_all scalar cs \<Longrightarrow> well_formed (concat (map units_of_cp cs))"
  by (induction cs) (simp_all add: units_of_cp_well_formed)

lemma toString_utf8_well_formed: "well_formed (toString_utf8 data)"
  unfolding toString_utf8_def by (rule units_well_formed) (rule utf8_scan_scalar)

lemma is_space_plain: "is_space u \<Longrightarrow> \<not> is_high_surrogate u \<and> \<not> is_low_surrogate u"
  by (auto simp: is_space_def is_high_surrogate_def is_low_surrogate_def)

lemma well_formed_dropWhile:
  "well_formed s \<Longrightarrow> well_formed (dropWhile is_space s)"
proof (induction s)
  case Nil
  then show ?case by simp
next
  case (Cons u s)
  show ?case
  proof (cases "is_space u")
    case True
    with is_space_plain [of u] Cons.prems have "well_formed s"
      by (simp add: well_formed_Cons)
    with True Cons.IH show ?thesis
      by simp
  next
    case False
    with Cons.prems show ?thesis
      by simp
  qed
qed

lemma well_formed_snoc:
  assumes "\<not> is_high_surrogate u" and "\<not> is_low_surrogate u"
  shows "well_formed (s @ [u]) = well_formed s"
  using assms by (induction s rule: well_formed.induct) auto

lemma well_formed_drop_trailing:
  "well_formed s \<Longrightarrow> well_formed (rev (dropWhile is_space (rev s)))"
proof (induction s rule: rev_induct)
  case Nil
  then show ?case by simp
next
  case (snoc u s)
  show ?case
  proof (cases "is_space u")
    case True
    with is_space_plain [of u] snoc.prems have "well_formed s"
      by (simp add: well_formed_snoc)
    with True snoc.IH show ?thesis
      by simp
  next
    case False
    with snoc.prems show ?thesis
      by simp
  qed
qed

lemma well_formed_trim: "well_formed s \<Longrightarrow> well_formed (trim s)"
  unfolding trim_def by (intro well_formed_drop_trailing well_formed_dropWhile)

text \<open>
  Whatever bytes the clipboard command prints, the text that a poll tick sends, when it
  holds no U+0000, is decoded by the peer, from one chunk and an empty buffer, as exactly
  that text.
\<close>

theorem sent_text_is_received:
  assumes "tick_finish st (Inr (toString_utf8 raw)) = (st', Some bytes)"
    and "\<not> exec_throws (trim (toString_utf8 raw))"
    and "buffer peer = []"
  shows "on_data peer bytes = Inr (peer, [trim (toString_utf8 raw)])"
proof -
  from assms(1) have bytes: "bytes = Buffer_from (message (trim (toString_utf8 raw)))"
    by (auto simp: tick_finish_def Let_def split: if_splits)
  have "well_formed (trim (toString_utf8 raw))"
    by (intro well_formed_trim toString_utf8_well_formed)
  then have "well_formed (message (trim (toString_utf8 raw)))"
    by (simp only: well_formed_message)
  from on_data_fresh [OF assms(3) this] assms(2,3) show ?thesis
    unfolding bytes by (simp add: process_buffer_one_message buffer_kept_empty)
qed

theorem sent_text_is_received_witness:
  "tick_finish fresh_connection (Inr (toString_utf8 [0x20, 0xC3, 0xA9, 0xFF, 0x0A]))
     = (fresh_connection\<lparr>lastClipboardContent := [0xE9, 0xFFFD]\<rparr>,
        Some (Buffer_from (message [0xE9, 0xFFFD])))
   \<and> on_data fresh_connection (Buffer_from (message [0xE9, 0xFFFD]))
     = Inr (fresh_connection, [[0xE9, 0xFFFD]])"
proof -
  have read: "toString_utf8 [0x20, 0xC3, 0xA9, 0xFF, 0x0A] = [0x20, 0xE9, 0xFFFD, 0x0A]"
    by (simp add: toString_utf8_def units_of_cp_def cont_def)
  have trimmed: "trim [0x20, 0xE9, 0xFFFD, 0x0A] = [0xE9, 0xFFFD]"
    by (simp add: trim_def is_space_def)
  have sent: "tick_finish fresh_connection
      (Inr (toString_utf8 [0x20, 0xC3, 0xA9, 0xFF, 0x0A]))
     = (fresh_connection\<lparr>lastClipboardContent := [0xE9, 0xFFFD]\<rparr>,
        Some (Buffer_from (message [0xE9, 0xFFFD])))"
    unfolding read
    by (simp add: tick_finish_def Let_def trimmed fresh_connection_def)
  have quiet: "\<not> exec_throws (trim (toString_utf8 [0x20, 0xC3, 0xA9, 0xFF, 0x0A]))"
    by (simp add: read trimmed exec_throws_def)
  have empty: "buffer fresh_connection = []"
    by (simp add: fresh_connection_def)
  from sent_text_is_received [OF sent quiet empty] sent show ?thesis
    by (simp add: read trimmed)
qed

end
